theory Spec2Isabelle
  imports Main "HOL-Library.Word"
begin

section \<open>The FIFO of fifo.c: a circular buffer with stored last operation\<close>

subsection \<open>Data model\<close>

text \<open>
  \<^verbatim>\<open>#define NFIFOCAP 4\<close> and \<^verbatim>\<open>#define NNAMESIZE 20\<close>. The three functions below
  take the capacity as their first argument \<open>cap\<close>, which stands for the macro
  \<^verbatim>\<open>NFIFOCAP\<close>; the program itself is the instance \<open>cap = NFIFOCAP\<close>.
\<close>

definition NFIFOCAP :: nat where
  "NFIFOCAP = 4"

definition NNAMESIZE :: nat where
  "NNAMESIZE = 20"

text \<open>
  \<^verbatim>\<open>struct FifoEntry { uint8_t ID; char Name [NNAMESIZE]; clock_t TimeStamp; }\<close>.
  The FIFO only ever copies entries whole (struct assignment), so the name is kept as
  the string it holds and the time stamp as the number of ticks.
\<close>

record FifoEntry =
  ID :: "8 word"
  Name :: string
  TimeStamp :: int

text \<open>
  \<^verbatim>\<open>struct Fifo { FifoEntry_t data [NFIFOCAP]; FifoEntry_t *pRd; FifoEntry_t *pWr; bool fRd; }\<close>.
  The array is a list (of length \<open>cap\<close> in every value of the C type). A pointer
  \<^verbatim>\<open>pFifo->data + i\<close> into the array is the offset \<open>i\<close>, counted in entries, so
  \<^verbatim>\<open>pFifo->data\<close> is offset 0 and \<^verbatim>\<open>pFifo->data + NFIFOCAP\<close> is offset \<open>cap\<close>.
\<close>

record Fifo =
  data :: "FifoEntry list"
  pRd :: nat
  pWr :: nat
  fRd :: bool

text \<open>
  Dereferencing a pointer that is not inside the array is undefined behaviour in C.
  The model returns \<open>Inl OutOfBounds\<close> there, so that every theorem about a result
  \<open>Inr \<dots>\<close> is also a statement that no such access happened.
\<close>

datatype fault = OutOfBounds

subsection \<open>The three operations\<close>

text \<open>
  \<^verbatim>\<open>bool FifoInit(Fifo_t *pFifo)\<close>. The local \<^verbatim>\<open>defaultEntry\<close> is built from \<^verbatim>\<open>clock()\<close>
  (the argument \<open>clk\<close>) and never used. The result is the updated structure and the
  returned flag.
\<close>

definition FifoInit :: "int \<Rightarrow> Fifo \<Rightarrow> Fifo \<times> bool" where
  "FifoInit clk pFifo =
     (let defaultEntry = \<lparr>ID = 0, Name = ''DEFAULT'', TimeStamp = clk\<rparr>;
          f1 = pFifo\<lparr>pRd := 0\<rparr>;
          f2 = f1\<lparr>pWr := 0\<rparr>;
          f3 = f2\<lparr>fRd := True\<rparr>
      in (f3, True))"

text \<open>
  \<^verbatim>\<open>bool FifoPut(Fifo_t *pFifo, FifoEntry_t item)\<close>: the full test and its early
  return, then \<^verbatim>\<open>*pFifo->pWr++ = item\<close>, the flag, and the reset of \<^verbatim>\<open>pWr\<close> at the end
  of the array.
\<close>

definition FifoPut :: "nat \<Rightarrow> Fifo \<Rightarrow> FifoEntry \<Rightarrow> fault + Fifo \<times> bool" where
  "FifoPut cap pFifo item =
     (if \<not> fRd pFifo \<and> pWr pFifo = pRd pFifo then Inr (pFifo, False)
      else if length (data pFifo) \<le> pWr pFifo then Inl OutOfBounds
      else
        let f1 = pFifo\<lparr>data := (data pFifo)[pWr pFifo := item], pWr := pWr pFifo + 1\<rparr>;
            f2 = f1\<lparr>fRd := False\<rparr>;
            f3 = (if cap \<le> pWr f2 then f2\<lparr>pWr := 0\<rparr> else f2)
        in Inr (f3, True))"

text \<open>
  \<^verbatim>\<open>bool FifoGet(Fifo_t *pFifo, FifoEntry_t *pItem)\<close>: the empty test and its early
  return, then \<^verbatim>\<open>*pItem = *pFifo->pRd++\<close>, the flag, and the reset of \<^verbatim>\<open>pRd\<close>. The
  second component of the result is \<open>Some e\<close> when the function returns true having
  stored \<open>e\<close> in \<^verbatim>\<open>*pItem\<close>, and \<open>None\<close> when it returns false, \<^verbatim>\<open>*pItem\<close> not written.
\<close>

definition FifoGet :: "nat \<Rightarrow> Fifo \<Rightarrow> fault + Fifo \<times> FifoEntry option" where
  "FifoGet cap pFifo =
     (if fRd pFifo \<and> pWr pFifo = pRd pFifo then Inr (pFifo, None)
      else if length (data pFifo) \<le> pRd pFifo then Inl OutOfBounds
      else
        let item = data pFifo ! pRd pFifo;
            f1 = pFifo\<lparr>pRd := pRd pFifo + 1\<rparr>;
            f2 = f1\<lparr>fRd := True\<rparr>;
            f3 = (if cap \<le> pRd f2 then f2\<lparr>pRd := 0\<rparr> else f2)
        in Inr (f3, Some item))"

subsection \<open>Sequences of calls\<close>

text \<open>
  A caller such as \<^verbatim>\<open>testFIFO\<close> issues a sequence of \<^verbatim>\<open>FifoPut\<close> and \<^verbatim>\<open>FifoGet\<close> calls and
  looks at what each returns. \<open>BufferFull\<close> is \<^verbatim>\<open>FifoPut\<close> returning false and
  \<open>BufferEmpty\<close> is \<^verbatim>\<open>FifoGet\<close> returning false.
\<close>

datatype call = Put FifoEntry | Get

datatype outcome = PutOk | BufferFull | GetOk FifoEntry | BufferEmpty

definition step :: "nat \<Rightarrow> Fifo \<Rightarrow> call \<Rightarrow> fault + Fifo \<times> outcome" where
  "step cap f c =
     (case c of
        Put item \<Rightarrow>
          (case FifoPut cap f item of
             Inl e \<Rightarrow> Inl e
           | Inr (f', ok) \<Rightarrow> Inr (f', if ok then PutOk else BufferFull))
      | Get \<Rightarrow>
          (case FifoGet cap f of
             Inl e \<Rightarrow> Inl e
           | Inr (f', r) \<Rightarrow> Inr (f', case r of Some e \<Rightarrow> GetOk e | None \<Rightarrow> BufferEmpty)))"

fun run :: "nat \<Rightarrow> Fifo \<Rightarrow> call list \<Rightarrow> fault + Fifo \<times> outcome list" where
  "run cap f [] = Inr (f, [])"
| "run cap f (c # cs) =
     (case step cap f c of
        Inl e \<Rightarrow> Inl e
      | Inr (f', out) \<Rightarrow>
          (case run cap f' cs of
             Inl e \<Rightarrow> Inl e
           | Inr (f'', outs) \<Rightarrow> Inr (f'', out # outs)))"

text \<open>
  The number of entries a sequence of calls has left in the buffer: one more for every
  successful put, one less for every successful get. It is an \<open>int\<close>, so that a get
  without a matching put would show as a negative number.
\<close>

fun gain :: "outcome \<Rightarrow> int" where
  "gain PutOk = 1"
| "gain (GetOk e) = - 1"
| "gain BufferFull = 0"
| "gain BufferEmpty = 0"

definition held :: "outcome list \<Rightarrow> int" where
  "held outs = sum_list (map gain outs)"

text \<open>The number of successful puts among the outcomes of a sequence of calls.\<close>

definition puts_done :: "outcome list \<Rightarrow> nat" where
  "puts_done outs = length (filter (\<lambda>out. out = PutOk) outs)"

text \<open>
  What every structure of the C type satisfies once \<^verbatim>\<open>FifoInit\<close> has run: the array has
  \<open>cap\<close> entries, \<open>cap\<close> is positive, and both pointers are inside the array.
\<close>

definition fifo_ok :: "nat \<Rightarrow> Fifo \<Rightarrow> bool" where
  "fifo_ok cap f \<longleftrightarrow> 0 < cap \<and> length (data f) = cap \<and> pRd f < cap \<and> pWr f < cap"

text \<open>An entry with the given id, as \<^verbatim>\<open>testFIFO\<close> builds its items field by field.\<close>

definition entry :: "8 word \<Rightarrow> string \<Rightarrow> int \<Rightarrow> FifoEntry" where
  "entry i nm ts = \<lparr>ID = i, Name = nm, TimeStamp = ts\<rparr>"

text \<open>
  The occupied-count as the specification derives it from the two cursors and the flag;
  the structure itself stores no count.
\<close>

definition derived_count :: "nat \<Rightarrow> Fifo \<Rightarrow> int" where
  "derived_count cap f =
     (if pRd f = pWr f then (if fRd f then 0 else int cap)
      else (int (pWr f) - int (pRd f) + int cap) mod int cap)"

text \<open>
  Three concrete structures of capacity \<open>NFIFOCAP\<close>, used to instantiate the theorems:
  one that \<^verbatim>\<open>FifoInit\<close> has not seen yet (arbitrary pointers), one that holds a single
  entry, and a full one.
\<close>

definition ex_raw :: Fifo where
  "ex_raw = \<lparr>data = [entry 0 [] 0, entry 0 [] 0, entry 0 [] 0, entry 0 [] 0],
              pRd = 3, pWr = 1, fRd = False\<rparr>"

definition ex_partial :: Fifo where
  "ex_partial = \<lparr>data = [entry 1 ''a'' 10, entry 2 ''b'' 20, entry 0 [] 0, entry 0 [] 0],
                  pRd = 1, pWr = 2, fRd = False\<rparr>"

definition ex_full :: Fifo where
  "ex_full = \<lparr>data = [entry 1 ''a'' 10, entry 2 ''b'' 20, entry 3 ''c'' 30, entry 4 ''d'' 40],
               pRd = 2, pWr = 2, fRd = False\<rparr>"

section \<open>The operations on well-formed structures\<close>

lemma FifoPut_ok:
  "fifo_ok cap f \<Longrightarrow>
   FifoPut cap f x =
     (if \<not> fRd f \<and> pWr f = pRd f then Inr (f, False)
      else Inr (f\<lparr>data := (data f)[pWr f := x], pWr := (pWr f + 1) mod cap, fRd := False\<rparr>, True))"
  by (auto simp: FifoPut_def fifo_ok_def Let_def mod_Suc)

lemma FifoGet_ok:
  "fifo_ok cap f \<Longrightarrow>
   FifoGet cap f =
     (if fRd f \<and> pWr f = pRd f then Inr (f, None)
      else Inr (f\<lparr>pRd := (pRd f + 1) mod cap, fRd := True\<rparr>, Some (data f ! pRd f)))"
  by (auto simp: FifoGet_def fifo_ok_def Let_def mod_Suc)

lemma fifo_ok_put: "fifo_ok cap f \<Longrightarrow> FifoPut cap f x = Inr (f', b) \<Longrightarrow> fifo_ok cap f'"
  by (auto simp: FifoPut_ok split: if_splits) (auto simp: fifo_ok_def)

lemma fifo_ok_get: "fifo_ok cap f \<Longrightarrow> FifoGet cap f = Inr (f', r) \<Longrightarrow> fifo_ok cap f'"
  by (auto simp: FifoGet_ok split: if_splits) (auto simp: fifo_ok_def)

lemma fifo_ok_init: "0 < cap \<Longrightarrow> length (data f) = cap \<Longrightarrow> fifo_ok cap (fst (FifoInit clk f))"
  by (simp add: FifoInit_def fifo_ok_def)

lemma run_append:
  "run cap f (cs @ ds) =
     (case run cap f cs of
        Inl e \<Rightarrow> Inl e
      | Inr (f', outs) \<Rightarrow>
          (case run cap f' ds of
             Inl e \<Rightarrow> Inl e
           | Inr (f'', outs') \<Rightarrow> Inr (f'', outs @ outs')))"
  by (induction cs arbitrary: f) (auto split: sum.splits)

lemma step_put_ok:
  "fifo_ok cap f \<Longrightarrow>
   step cap f (Put x) =
     (if \<not> fRd f \<and> pWr f = pRd f then Inr (f, BufferFull)
      else Inr (f\<lparr>data := (data f)[pWr f := x], pWr := (pWr f + 1) mod cap, fRd := False\<rparr>, PutOk))"
  by (simp add: step_def FifoPut_ok)

lemma step_get_ok:
  "fifo_ok cap f \<Longrightarrow>
   step cap f Get =
     (if fRd f \<and> pWr f = pRd f then Inr (f, BufferEmpty)
      else Inr (f\<lparr>pRd := (pRd f + 1) mod cap, fRd := True\<rparr>, GetOk (data f ! pRd f)))"
  by (simp add: step_def FifoGet_ok)

lemma succ_mod: "w < cap \<Longrightarrow> Suc w mod cap = (if Suc w = cap then 0 else Suc w)"
  by (simp add: mod_Suc)

lemma fifo_ok_step: "fifo_ok cap f \<Longrightarrow> step cap f c = Inr (f', out) \<Longrightarrow> fifo_ok cap f'"
  by (cases c) (auto simp: step_put_ok step_get_ok fifo_ok_def succ_mod split: if_splits)

lemma step_total: "fifo_ok cap f \<Longrightarrow> \<exists>f' out. step cap f c = Inr (f', out)"
  by (cases c) (auto simp: step_put_ok step_get_ok)

lemma wrap_diff:
  "r < cap \<Longrightarrow> w < cap \<Longrightarrow>
   (int w - int r + int cap) mod int cap = (if r \<le> w then int w - int r else int w - int r + int cap)"
proof (cases "r \<le> w")
  case True
  assume "r < cap" "w < cap"
  with True have "(int w - int r) mod int cap = int w - int r"
    by (intro mod_pos_pos_trivial) auto
  with True show ?thesis by simp
next
  case False
  assume "r < cap" "w < cap"
  with False have "(int w - int r + int cap) mod int cap = int w - int r + int cap"
    by (intro mod_pos_pos_trivial) auto
  with False show ?thesis by simp
qed

lemma derived_count_cases:
  assumes "fifo_ok cap f"
  shows "derived_count cap f =
     (if pRd f = pWr f then (if fRd f then 0 else int cap)
      else if pRd f \<le> pWr f then int (pWr f) - int (pRd f)
      else int (pWr f) - int (pRd f) + int cap)"
proof -
  from assms have "pRd f < cap" "pWr f < cap" by (simp_all add: fifo_ok_def)
  from wrap_diff [OF this] show ?thesis by (simp only: derived_count_def)
qed

lemma derived_count_step:
  assumes ok: "fifo_ok cap f" and st: "step cap f cl = Inr (f', out)"
  shows "derived_count cap f' = derived_count cap f + gain out"
proof -
  have ok': "fifo_ok cap f'" by (rule fifo_ok_step [OF ok st])
  show ?thesis
    unfolding derived_count_cases [OF ok] derived_count_cases [OF ok']
    using ok st
    by (cases cl) (auto simp: step_put_ok step_get_ok fifo_ok_def succ_mod split: if_splits)
qed

lemma run_total: "fifo_ok cap f \<Longrightarrow> \<exists>f' outs. run cap f cs = Inr (f', outs)"
proof (induction cs arbitrary: f)
  case Nil
  show ?case by simp
next
  case (Cons c cs)
  from step_total [OF Cons.prems] obtain f1 out where s: "step cap f c = Inr (f1, out)" by blast
  from fifo_ok_step [OF Cons.prems s] have "fifo_ok cap f1" .
  from Cons.IH [OF this] obtain f2 outs where "run cap f1 cs = Inr (f2, outs)" by blast
  with s show ?case by simp
qed

lemma run_count:
  "fifo_ok cap f \<Longrightarrow> run cap f cs = Inr (f', outs) \<Longrightarrow>
   fifo_ok cap f' \<and> derived_count cap f' = derived_count cap f + held outs"
proof (induction cs arbitrary: f outs)
  case Nil
  then show ?case by (simp add: held_def)
next
  case (Cons cl cs)
  from Cons.prems(2) obtain f1 out outs1 where
    s: "step cap f cl = Inr (f1, out)" and r: "run cap f1 cs = Inr (f', outs1)" and o: "outs = out # outs1"
    by (auto split: sum.splits)
  have ok1: "fifo_ok cap f1" using fifo_ok_step [OF Cons.prems(1) s] .
  have "derived_count cap f1 = derived_count cap f + gain out"
    using derived_count_step [OF Cons.prems(1) s] .
  moreover have "fifo_ok cap f' \<and> derived_count cap f' = derived_count cap f1 + held outs1"
    using Cons.IH [OF ok1 r] .
  ultimately show ?case by (simp add: o held_def)
qed

lemma init_state: "fst (FifoInit clk f0) = \<lparr>data = data f0, pRd = 0, pWr = 0, fRd = True\<rparr>"
  by (cases f0) (simp add: FifoInit_def)

section \<open>Sequences of calls: cursors, count and order\<close>

lemma pWr_step:
  "fifo_ok cap f \<Longrightarrow> step cap f cl = Inr (f', out) \<Longrightarrow>
   pWr f' = (pWr f + puts_done [out]) mod cap"
  by (cases cl) (auto simp: step_put_ok step_get_ok fifo_ok_def puts_done_def split: if_splits)

lemma pWr_run:
  "fifo_ok cap f \<Longrightarrow> run cap f cs = Inr (f', outs) \<Longrightarrow>
   pWr f' = (pWr f + puts_done outs) mod cap"
proof (induction cs arbitrary: f outs)
  case Nil
  then show ?case by (simp add: puts_done_def fifo_ok_def)
next
  case (Cons cl cs)
  from Cons.prems(2) obtain f1 out outs1 where
    s: "step cap f cl = Inr (f1, out)" and r: "run cap f1 cs = Inr (f', outs1)" and o: "outs = out # outs1"
    by (auto split: sum.splits)
  have ok1: "fifo_ok cap f1" using fifo_ok_step [OF Cons.prems(1) s] .
  have "pWr f' = (pWr f1 + puts_done outs1) mod cap" using Cons.IH [OF ok1 r] .
  also have "pWr f1 = (pWr f + puts_done [out]) mod cap" using pWr_step [OF Cons.prems(1) s] .
  also have "((pWr f + puts_done [out]) mod cap + puts_done outs1) mod cap
        = (pWr f + (puts_done [out] + puts_done outs1)) mod cap"
    by (simp add: mod_add_left_eq add.assoc)
  also have "puts_done [out] + puts_done outs1 = puts_done outs"
    by (simp add: o puts_done_def)
  finally show ?case .
qed

lemma run_puts:
  assumes "0 < cap" "length d = cap"
  shows "length xs \<le> cap \<Longrightarrow>
    run cap \<lparr>data = d, pRd = 0, pWr = 0, fRd = True\<rparr> (map Put xs) =
      Inr (\<lparr>data = xs @ drop (length xs) d, pRd = 0, pWr = length xs mod cap, fRd = (xs = [])\<rparr>,
           replicate (length xs) PutOk)"
proof (induction xs rule: rev_induct)
  case Nil
  show ?case by simp
next
  case (snoc x xs)
  let ?k = "length xs"
  let ?S = "\<lparr>data = xs @ drop ?k d, pRd = 0, pWr = ?k mod cap, fRd = (xs = [])\<rparr>"
  from snoc.prems have k: "?k < cap" by simp
  then have ok: "fifo_ok cap ?S" using assms by (simp add: fifo_ok_def)
  have "drop ?k d = d ! ?k # drop (Suc ?k) d"
    using k assms by (simp add: Cons_nth_drop_Suc)
  then have upd: "(xs @ drop ?k d)[?k := x] = (xs @ [x]) @ drop (Suc ?k) d"
    by (simp add: list_update_append)
  have "step cap ?S (Put x) =
      Inr (\<lparr>data = (xs @ [x]) @ drop (Suc ?k) d, pRd = 0, pWr = Suc ?k mod cap, fRd = False\<rparr>, PutOk)"
    by (subst step_put_ok [OF ok]) (use k upd in simp)
  moreover have "run cap \<lparr>data = d, pRd = 0, pWr = 0, fRd = True\<rparr> (map Put xs) = Inr (?S, replicate ?k PutOk)"
    using snoc.IH k by simp
  ultimately show ?case
    by (simp add: run_append replicate_append_same)
qed

lemma run_gets:
  assumes "0 < cap" "length D = cap" "m \<le> cap" "length xs = m" "take m D = xs"
  shows "j \<le> m \<Longrightarrow>
    run cap \<lparr>data = D, pRd = 0, pWr = m mod cap, fRd = (m = 0)\<rparr> (replicate j Get) =
      Inr (\<lparr>data = D, pRd = j mod cap, pWr = m mod cap, fRd = (m = 0 \<or> 0 < j)\<rparr>,
           map GetOk (take j xs))"
proof (induction j)
  case 0
  show ?case using assms by simp
next
  case (Suc j)
  let ?T = "\<lparr>data = D, pRd = j mod cap, pWr = m mod cap, fRd = (m = 0 \<or> 0 < j)\<rparr>"
  from Suc.prems have j: "j < m" by simp
  with assms have jc: "j < cap" by simp
  have ok: "fifo_ok cap ?T" using assms jc by (simp add: fifo_ok_def)
  have ne: "\<not> (fRd ?T \<and> pWr ?T = pRd ?T)"
    using j jc assms(3) by (cases "m = cap") auto
  have nth: "D ! j = xs ! j"
    using assms(5) j by (metis nth_take)
  have "step cap ?T Get =
      Inr (\<lparr>data = D, pRd = Suc j mod cap, pWr = m mod cap, fRd = True\<rparr>, GetOk (xs ! j))"
    by (subst step_get_ok [OF ok]) (use ne jc nth in simp)
  moreover have "run cap \<lparr>data = D, pRd = 0, pWr = m mod cap, fRd = (m = 0)\<rparr> (replicate j Get) =
      Inr (?T, map GetOk (take j xs))"
    using Suc.IH j by simp
  moreover have "replicate (Suc j) Get = replicate j Get @ [Get]"
    by (simp add: replicate_append_same)
  moreover have "take (Suc j) xs = take j xs @ [xs ! j]"
    using j assms(4) by (simp add: take_Suc_conv_app_nth)
  ultimately show ?case
    by (simp add: run_append del: replicate_Suc)
qed

lemma run_pairs:
  "fifo_ok cap f \<Longrightarrow> fRd f \<Longrightarrow> pRd f = pWr f \<Longrightarrow>
   \<exists>f'. run cap f (concat (map (\<lambda>x. [Put x, Get]) xs)) =
          Inr (f', concat (map (\<lambda>x. [PutOk, GetOk x]) xs))"
proof (induction xs arbitrary: f)
  case Nil
  show ?case by simp
next
  case (Cons x xs)
  let ?f1 = "f\<lparr>data := (data f)[pWr f := x], pWr := (pWr f + 1) mod cap, fRd := False\<rparr>"
  let ?f2 = "?f1\<lparr>pRd := (pRd f + 1) mod cap, fRd := True\<rparr>"
  have s1: "step cap f (Put x) = Inr (?f1, PutOk)"
    using Cons.prems by (simp add: step_put_ok)
  have ok1: "fifo_ok cap ?f1" by (rule fifo_ok_step [OF Cons.prems(1) s1])
  have s2: "step cap ?f1 Get = Inr (?f2, GetOk x)"
    by (subst step_get_ok [OF ok1]) (use Cons.prems in \<open>simp add: fifo_ok_def\<close>)
  have ok2: "fifo_ok cap ?f2" by (rule fifo_ok_step [OF ok1 s2])
  have "fRd ?f2" "pRd ?f2 = pWr ?f2" using Cons.prems by simp_all
  from Cons.IH [OF ok2 this] obtain f' where
    "run cap ?f2 (concat (map (\<lambda>x. [Put x, Get]) xs)) = Inr (f', concat (map (\<lambda>x. [PutOk, GetOk x]) xs))"
    by blast
  with s1 s2 show ?case by simp
qed

section \<open>Initialisation\<close>

text \<open>
  C8. \<^verbatim>\<open>FifoInit\<close> always succeeds and establishes the empty state: for every structure
  (whatever its previous contents and pointers) it returns true and leaves both pointers
  at the start of the array (offset 0) and the last-operation flag at "read".
\<close>

theorem FifoInit_establishes_empty:
  "snd (FifoInit clk f) = True \<and>
   pRd (fst (FifoInit clk f)) = 0 \<and>
   pWr (fst (FifoInit clk f)) = 0 \<and>
   fRd (fst (FifoInit clk f)) = True"
  by (simp add: FifoInit_def)

text \<open>
  C10. \<^verbatim>\<open>FifoInit\<close> changes only the two pointers and the flag: the array of entries after
  the call is the array before it, for every structure; the default entry built inside
  the function is stored nowhere.
\<close>

theorem FifoInit_keeps_data:
  "data (fst (FifoInit clk f)) = data f \<and>
   fst (FifoInit clk f) = f\<lparr>pRd := 0, pWr := 0, fRd := True\<rparr>"
  by (simp add: FifoInit_def)

section \<open>The full and empty tests\<close>

text \<open>
  C2. For every well-formed structure, \<^verbatim>\<open>FifoPut\<close> returns false (BufferFull) if and only
  if the last operation was not a read and the two pointers coincide, and a put that
  returns false returns the structure it was given: array, both pointers and flag are
  unchanged, nothing having been written before the test. In particular, on a freshly
  initialised structure of capacity \<open>cap\<close>, \<open>cap\<close> puts all succeed, and one more put
  on the resulting structure returns false and leaves that structure as it is.
\<close>

theorem FifoPut_full_test:
  "(fifo_ok cap f \<longrightarrow>
      (\<exists>f' ok. FifoPut cap f item = Inr (f', ok) \<and>
         (\<not> ok \<longleftrightarrow> \<not> fRd f \<and> pRd f = pWr f) \<and> (\<not> ok \<longrightarrow> f' = f))) \<and>
   (0 < cap \<and> length (data f0) = cap \<and> length xs = cap \<longrightarrow>
      (\<exists>f'. run cap (fst (FifoInit clk f0)) (map Put xs) = Inr (f', replicate cap PutOk) \<and>
         FifoPut cap f' item = Inr (f', False) \<and>
         run cap (fst (FifoInit clk f0)) (map Put xs @ [Put item]) =
           Inr (f', replicate cap PutOk @ [BufferFull])))"
proof (intro conjI impI)
  assume "fifo_ok cap f"
  then show "\<exists>f' ok. FifoPut cap f item = Inr (f', ok) \<and>
         (\<not> ok \<longleftrightarrow> \<not> fRd f \<and> pRd f = pWr f) \<and> (\<not> ok \<longrightarrow> f' = f)"
    by (auto simp: FifoPut_ok)
next
  assume a: "0 < cap \<and> length (data f0) = cap \<and> length xs = cap"
  let ?S = "\<lparr>data = xs @ drop (length xs) (data f0), pRd = 0, pWr = length xs mod cap, fRd = (xs = [])\<rparr>"
  from a have ne: "xs \<noteq> []" by auto
  have r: "run cap (fst (FifoInit clk f0)) (map Put xs) = Inr (?S, replicate cap PutOk)"
    using run_puts [of cap "data f0" xs] a by (simp add: init_state)
  have p: "FifoPut cap ?S item = Inr (?S, False)"
    using a ne by (simp add: FifoPut_def)
  have "run cap (fst (FifoInit clk f0)) (map Put xs @ [Put item]) =
           Inr (?S, replicate cap PutOk @ [BufferFull])"
    by (simp add: run_append r step_def p)
  with r p show "\<exists>f'. run cap (fst (FifoInit clk f0)) (map Put xs) = Inr (f', replicate cap PutOk) \<and>
         FifoPut cap f' item = Inr (f', False) \<and>
         run cap (fst (FifoInit clk f0)) (map Put xs @ [Put item]) =
           Inr (f', replicate cap PutOk @ [BufferFull])"
    by blast
qed

theorem FifoPut_full_test_witness:
  "fifo_ok NFIFOCAP ex_full \<and> \<not> fRd ex_full \<and> pRd ex_full = pWr ex_full \<and>
   FifoPut NFIFOCAP ex_full (entry 5 ''e'' 50) = Inr (ex_full, False) \<and>
   0 < NFIFOCAP \<and> length (data ex_raw) = NFIFOCAP \<and>
   length [entry 1 ''a'' 10, entry 2 ''b'' 20, entry 3 ''c'' 30, entry 4 ''d'' 40] = NFIFOCAP \<and>
   run NFIFOCAP (fst (FifoInit 7 ex_raw))
       (map Put [entry 1 ''a'' 10, entry 2 ''b'' 20, entry 3 ''c'' 30, entry 4 ''d'' 40] @
        [Put (entry 5 ''e'' 50)]) =
     Inr (\<lparr>data = [entry 1 ''a'' 10, entry 2 ''b'' 20, entry 3 ''c'' 30, entry 4 ''d'' 40],
            pRd = 0, pWr = 0, fRd = False\<rparr>,
          [PutOk, PutOk, PutOk, PutOk, BufferFull])"
  using FifoPut_full_test [of NFIFOCAP ex_full "entry 5 ''e'' 50" ex_raw
      "[entry 1 ''a'' 10, entry 2 ''b'' 20, entry 3 ''c'' 30, entry 4 ''d'' 40]" 7]
  by (simp add: NFIFOCAP_def ex_full_def ex_raw_def fifo_ok_def FifoInit_def step_def
      FifoPut_def)

text \<open>
  C3. For every well-formed structure, \<^verbatim>\<open>FifoGet\<close> returns false (BufferEmpty) if and only
  if the last operation was a read and the two pointers coincide, and a get that returns
  false returns the structure it was given. In particular \<^verbatim>\<open>FifoGet\<close> on a freshly
  initialised structure returns false.
\<close>

theorem FifoGet_empty_test:
  "(fifo_ok cap f \<longrightarrow>
      (\<exists>f' r. FifoGet cap f = Inr (f', r) \<and>
         (r = None \<longleftrightarrow> fRd f \<and> pRd f = pWr f) \<and> (r = None \<longrightarrow> f' = f))) \<and>
   FifoGet cap (fst (FifoInit clk f0)) = Inr (fst (FifoInit clk f0), None)"
proof (rule conjI)
  show "fifo_ok cap f \<longrightarrow>
      (\<exists>f' r. FifoGet cap f = Inr (f', r) \<and>
         (r = None \<longleftrightarrow> fRd f \<and> pRd f = pWr f) \<and> (r = None \<longrightarrow> f' = f))"
    by (auto simp: FifoGet_ok)
  show "FifoGet cap (fst (FifoInit clk f0)) = Inr (fst (FifoInit clk f0), None)"
    by (simp add: FifoGet_def FifoInit_def)
qed

theorem FifoGet_empty_test_witness:
  "fifo_ok NFIFOCAP (ex_full\<lparr>fRd := True\<rparr>) \<and>
   fRd (ex_full\<lparr>fRd := True\<rparr>) \<and> pRd (ex_full\<lparr>fRd := True\<rparr>) = pWr (ex_full\<lparr>fRd := True\<rparr>) \<and>
   FifoGet NFIFOCAP (ex_full\<lparr>fRd := True\<rparr>) = Inr (ex_full\<lparr>fRd := True\<rparr>, None) \<and>
   FifoGet NFIFOCAP (fst (FifoInit 7 ex_raw)) = Inr (ex_raw\<lparr>pRd := 0, pWr := 0, fRd := True\<rparr>, None)"
  using FifoGet_empty_test [of NFIFOCAP "ex_full\<lparr>fRd := True\<rparr>" 7 ex_raw]
  by (simp add: NFIFOCAP_def ex_full_def ex_raw_def fifo_ok_def FifoInit_def FifoGet_def)

section \<open>Postconditions of successful calls\<close>

text \<open>
  C5. On a well-formed structure, a put that returns true has stored the item, whole, at
  the old write position, has left every other slot and the read pointer as they were,
  has set the flag to "not a read" and has advanced the write pointer by one modulo the
  capacity; a get that returns true has delivered a copy of the entry at the old read
  position, has set the flag to "read", has advanced the read pointer by one modulo the
  capacity and has left the array and the write pointer as they were.
\<close>

theorem success_postconditions:
  assumes "fifo_ok cap f"
  shows "(FifoPut cap f item = Inr (f', True) \<longrightarrow>
            data f' = (data f)[pWr f := item] \<and> data f' ! pWr f = item \<and>
            (\<forall>i. i \<noteq> pWr f \<longrightarrow> data f' ! i = data f ! i) \<and>
            fRd f' = False \<and> pWr f' = (pWr f + 1) mod cap \<and> pRd f' = pRd f) \<and>
         (FifoGet cap f = Inr (g', Some e) \<longrightarrow>
            e = data f ! pRd f \<and> fRd g' = True \<and> pRd g' = (pRd f + 1) mod cap \<and>
            data g' = data f \<and> pWr g' = pWr f)"
  using assms by (auto simp: FifoPut_ok FifoGet_ok fifo_ok_def split: if_splits)

theorem success_postconditions_witness:
  "fifo_ok NFIFOCAP ex_partial \<and>
   FifoPut NFIFOCAP ex_partial (entry 5 ''e'' 50) =
     Inr (\<lparr>data = [entry 1 ''a'' 10, entry 2 ''b'' 20, entry 5 ''e'' 50, entry 0 [] 0],
            pRd = 1, pWr = 3, fRd = False\<rparr>, True) \<and>
   FifoGet NFIFOCAP ex_partial =
     Inr (\<lparr>data = [entry 1 ''a'' 10, entry 2 ''b'' 20, entry 0 [] 0, entry 0 [] 0],
            pRd = 2, pWr = 2, fRd = True\<rparr>, Some (entry 2 ''b'' 20)) \<and>
   entry 2 ''b'' 20 = data ex_partial ! pRd ex_partial \<and>
   (3::nat) = (pWr ex_partial + 1) mod NFIFOCAP \<and> (2::nat) = (pRd ex_partial + 1) mod NFIFOCAP"
  using success_postconditions [of NFIFOCAP ex_partial "entry 5 ''e'' 50"
      "\<lparr>data = [entry 1 ''a'' 10, entry 2 ''b'' 20, entry 5 ''e'' 50, entry 0 [] 0],
         pRd = 1, pWr = 3, fRd = False\<rparr>"
      "\<lparr>data = [entry 1 ''a'' 10, entry 2 ''b'' 20, entry 0 [] 0, entry 0 [] 0],
         pRd = 2, pWr = 2, fRd = True\<rparr>"
      "entry 2 ''b'' 20"]
  by (simp add: NFIFOCAP_def ex_partial_def fifo_ok_def FifoPut_def FifoGet_def)

text \<open>
  C9. On a well-formed structure of any capacity of at least one and whatever its
  history, right after a put that returned true the flag says "not a read", so the
  buffer is not empty and a get made next returns true; dually, right after a get that
  returned true the flag says "read", so the buffer is not full and a put made next
  returns true.
\<close>

theorem opposite_call_succeeds_next:
  assumes "fifo_ok cap f"
  shows "(FifoPut cap f item = Inr (f', True) \<longrightarrow>
            \<not> fRd f' \<and> (\<exists>f'' e. FifoGet cap f' = Inr (f'', Some e))) \<and>
         (FifoGet cap f = Inr (g', Some e') \<longrightarrow>
            fRd g' \<and> (\<exists>g''. FifoPut cap g' item' = Inr (g'', True)))"
proof -
  have "\<not> fRd f' \<and> (\<exists>f'' e. FifoGet cap f' = Inr (f'', Some e))"
    if p: "FifoPut cap f item = Inr (f', True)"
  proof -
    have ok': "fifo_ok cap f'" by (rule fifo_ok_put [OF assms p])
    from p assms have "\<not> fRd f'" by (auto simp: FifoPut_ok split: if_splits)
    then show ?thesis by (simp add: FifoGet_ok [OF ok'])
  qed
  moreover have "fRd g' \<and> (\<exists>g''. FifoPut cap g' item' = Inr (g'', True))"
    if g: "FifoGet cap f = Inr (g', Some e')"
  proof -
    have ok': "fifo_ok cap g'" by (rule fifo_ok_get [OF assms g])
    from g assms have "fRd g'" by (auto simp: FifoGet_ok split: if_splits)
    then show ?thesis by (simp add: FifoPut_ok [OF ok'])
  qed
  ultimately show ?thesis by blast
qed

theorem opposite_call_succeeds_next_witness:
  "fifo_ok NFIFOCAP ex_partial \<and>
   FifoPut NFIFOCAP ex_partial (entry 5 ''e'' 50) =
     Inr (\<lparr>data = [entry 1 ''a'' 10, entry 2 ''b'' 20, entry 5 ''e'' 50, entry 0 [] 0],
            pRd = 1, pWr = 3, fRd = False\<rparr>, True) \<and>
   FifoGet NFIFOCAP \<lparr>data = [entry 1 ''a'' 10, entry 2 ''b'' 20, entry 5 ''e'' 50, entry 0 [] 0],
                      pRd = 1, pWr = 3, fRd = False\<rparr> =
     Inr (\<lparr>data = [entry 1 ''a'' 10, entry 2 ''b'' 20, entry 5 ''e'' 50, entry 0 [] 0],
            pRd = 2, pWr = 3, fRd = True\<rparr>, Some (entry 2 ''b'' 20)) \<and>
   FifoGet NFIFOCAP ex_partial =
     Inr (\<lparr>data = [entry 1 ''a'' 10, entry 2 ''b'' 20, entry 0 [] 0, entry 0 [] 0],
            pRd = 2, pWr = 2, fRd = True\<rparr>, Some (entry 2 ''b'' 20)) \<and>
   FifoPut NFIFOCAP \<lparr>data = [entry 1 ''a'' 10, entry 2 ''b'' 20, entry 0 [] 0, entry 0 [] 0],
                      pRd = 2, pWr = 2, fRd = True\<rparr> (entry 6 ''f'' 60) =
     Inr (\<lparr>data = [entry 1 ''a'' 10, entry 2 ''b'' 20, entry 6 ''f'' 60, entry 0 [] 0],
            pRd = 2, pWr = 3, fRd = False\<rparr>, True)"
  using opposite_call_succeeds_next [of NFIFOCAP ex_partial "entry 5 ''e'' 50"
      "\<lparr>data = [entry 1 ''a'' 10, entry 2 ''b'' 20, entry 5 ''e'' 50, entry 0 [] 0],
         pRd = 1, pWr = 3, fRd = False\<rparr>"
      "\<lparr>data = [entry 1 ''a'' 10, entry 2 ''b'' 20, entry 0 [] 0, entry 0 [] 0],
         pRd = 2, pWr = 2, fRd = True\<rparr>"
      "entry 2 ''b'' 20" "entry 6 ''f'' 60"]
  by (simp add: NFIFOCAP_def ex_partial_def fifo_ok_def FifoPut_def FifoGet_def)

section \<open>Reachable states\<close>

text \<open>
  C1. In every state reached from \<^verbatim>\<open>FifoInit\<close> by any sequence of \<^verbatim>\<open>FifoPut\<close> and
  \<^verbatim>\<open>FifoGet\<close> calls (capacity at least one), no call reads or writes outside the array,
  both pointers are offsets below the capacity, and the number of entries held
  (successful puts minus successful gets) is 0 when the pointers coincide and the last
  operation was a read, the capacity when they coincide and it was not, and
  \<open>(pWr - pRd + cap) mod cap\<close> when they differ.
\<close>

theorem reachable_cursors_and_count:
  assumes "0 < cap" and "length (data f0) = cap"
  shows "\<exists>f outs. run cap (fst (FifoInit clk f0)) cs = Inr (f, outs) \<and>
           pRd f < cap \<and> pWr f < cap \<and>
           (pRd f = pWr f \<longrightarrow> held outs = (if fRd f then 0 else int cap)) \<and>
           (pRd f \<noteq> pWr f \<longrightarrow> held outs = (int (pWr f) - int (pRd f) + int cap) mod int cap)"
proof -
  let ?i = "fst (FifoInit clk f0)"
  have ok: "fifo_ok cap ?i" using assms by (rule fifo_ok_init)
  from run_total [OF ok] obtain f outs where r: "run cap ?i cs = Inr (f, outs)" by blast
  from run_count [OF ok r] have ok': "fifo_ok cap f"
    and c: "derived_count cap f = derived_count cap ?i + held outs" by simp_all
  have "derived_count cap ?i = 0" by (simp add: derived_count_def FifoInit_def)
  with c have "held outs = derived_count cap f" by simp
  with ok' r show ?thesis by (auto simp: derived_count_def fifo_ok_def)
qed

theorem reachable_cursors_and_count_witness:
  "0 < NFIFOCAP \<and> length (data ex_raw) = NFIFOCAP \<and>
   run NFIFOCAP (fst (FifoInit 7 ex_raw))
       [Put (entry 1 ''a'' 10), Put (entry 2 ''b'' 20), Get, Put (entry 3 ''c'' 30)] =
     Inr (\<lparr>data = [entry 1 ''a'' 10, entry 2 ''b'' 20, entry 3 ''c'' 30, entry 0 [] 0],
            pRd = 1, pWr = 3, fRd = False\<rparr>,
          [PutOk, PutOk, GetOk (entry 1 ''a'' 10), PutOk]) \<and>
   held [PutOk, PutOk, GetOk (entry 1 ''a'' 10), PutOk] = 2 \<and>
   (int 3 - int 1 + int NFIFOCAP) mod int NFIFOCAP = 2"
  using reachable_cursors_and_count [of NFIFOCAP ex_raw 7
      "[Put (entry 1 ''a'' 10), Put (entry 2 ''b'' 20), Get, Put (entry 3 ''c'' 30)]"]
  by (simp add: NFIFOCAP_def ex_raw_def FifoInit_def step_def FifoPut_def FifoGet_def held_def)

section \<open>Order and wrap-around\<close>

text \<open>
  C4. Strict FIFO order: for every list of \<open>m\<close> items, \<open>m\<close> at most the capacity, put
  one after the other into a freshly initialised structure and followed by \<open>m\<close> gets,
  every put and every get returns true and the gets deliver exactly the items that were
  put, in the same order. (The items need not even be distinct.)
\<close>

theorem fifo_order:
  assumes "0 < cap" and "length (data f0) = cap" and "length xs \<le> cap"
  shows "\<exists>f'. run cap (fst (FifoInit clk f0)) (map Put xs @ replicate (length xs) Get) =
               Inr (f', replicate (length xs) PutOk @ map GetOk xs)"
proof -
  let ?m = "length xs"
  let ?D = "xs @ drop ?m (data f0)"
  have p: "run cap (fst (FifoInit clk f0)) (map Put xs) =
      Inr (\<lparr>data = ?D, pRd = 0, pWr = ?m mod cap, fRd = (?m = 0)\<rparr>, replicate ?m PutOk)"
    using run_puts [OF assms(1,2,3)] by (simp add: init_state)
  have "length ?D = cap" using assms by simp
  with run_gets [of cap ?D ?m xs ?m] assms
  have g: "run cap \<lparr>data = ?D, pRd = 0, pWr = ?m mod cap, fRd = (?m = 0)\<rparr> (replicate ?m Get) =
      Inr (\<lparr>data = ?D, pRd = ?m mod cap, pWr = ?m mod cap, fRd = (?m = 0 \<or> 0 < ?m)\<rparr>, map GetOk xs)"
    by simp
  show ?thesis
    by (simp only: run_append p g sum.case prod.case) blast
qed

theorem fifo_order_witness:
  "0 < NFIFOCAP \<and> length (data ex_raw) = NFIFOCAP \<and>
   length [entry 1 ''a'' 10, entry 2 ''b'' 20, entry 3 ''c'' 30] \<le> NFIFOCAP \<and>
   distinct [entry 1 ''a'' 10, entry 2 ''b'' 20, entry 3 ''c'' 30] \<and>
   run NFIFOCAP (fst (FifoInit 7 ex_raw))
       (map Put [entry 1 ''a'' 10, entry 2 ''b'' 20, entry 3 ''c'' 30] @
        replicate (length [entry 1 ''a'' 10, entry 2 ''b'' 20, entry 3 ''c'' 30]) Get) =
     Inr (\<lparr>data = [entry 1 ''a'' 10, entry 2 ''b'' 20, entry 3 ''c'' 30, entry 0 [] 0],
            pRd = 3, pWr = 3, fRd = True\<rparr>,
          [PutOk, PutOk, PutOk,
           GetOk (entry 1 ''a'' 10), GetOk (entry 2 ''b'' 20), GetOk (entry 3 ''c'' 30)])"
  using fifo_order [of NFIFOCAP ex_raw "[entry 1 ''a'' 10, entry 2 ''b'' 20, entry 3 ''c'' 30]" 7]
  by (simp add: NFIFOCAP_def ex_raw_def entry_def FifoInit_def step_def FifoPut_def FifoGet_def
      numeral_3_eq_3)

text \<open>
  C6. Wrap-around is exact: for every \<open>k\<close>, a sequence of calls on a well-formed
  structure, in any interleaving, that contains exactly \<open>k * cap\<close> successful puts
  leaves the write pointer where it started; and on a freshly initialised structure,
  \<open>3 * cap\<close> consecutive pairs of a put and a get all succeed, no put reporting full and
  no get reporting empty, each get delivering the item just put.
\<close>

theorem wrap_around_exact:
  "(fifo_ok cap f \<longrightarrow>
      (\<exists>f' outs. run cap f cs = Inr (f', outs) \<and>
         (puts_done outs = k * cap \<longrightarrow> pWr f' = pWr f))) \<and>
   (0 < cap \<and> length (data f0) = cap \<and> length xs = 3 * cap \<longrightarrow>
      (\<exists>f'. run cap (fst (FifoInit clk f0)) (concat (map (\<lambda>x. [Put x, Get]) xs)) =
             Inr (f', concat (map (\<lambda>x. [PutOk, GetOk x]) xs))))"
proof (intro conjI impI)
  assume ok: "fifo_ok cap f"
  from run_total [OF ok] obtain f' outs where r: "run cap f cs = Inr (f', outs)" by blast
  have "pWr f' = (pWr f + puts_done outs) mod cap" by (rule pWr_run [OF ok r])
  moreover have "pWr f < cap" using ok by (simp add: fifo_ok_def)
  ultimately have "puts_done outs = k * cap \<longrightarrow> pWr f' = pWr f" by simp
  with r show "\<exists>f' outs. run cap f cs = Inr (f', outs) \<and>
         (puts_done outs = k * cap \<longrightarrow> pWr f' = pWr f)" by blast
next
  assume a: "0 < cap \<and> length (data f0) = cap \<and> length xs = 3 * cap"
  let ?i = "fst (FifoInit clk f0)"
  have ok: "fifo_ok cap ?i" using a by (simp add: fifo_ok_init)
  have "fRd ?i" "pRd ?i = pWr ?i" by (simp_all add: FifoInit_def)
  from run_pairs [OF ok this]
  show "\<exists>f'. run cap ?i (concat (map (\<lambda>x. [Put x, Get]) xs)) =
             Inr (f', concat (map (\<lambda>x. [PutOk, GetOk x]) xs))" .
qed

theorem wrap_around_exact_witness:
  "fifo_ok NFIFOCAP ex_partial \<and>
   run NFIFOCAP ex_partial
       [Put (entry 5 ''e'' 50), Put (entry 6 ''f'' 60), Put (entry 7 ''g'' 70),
        Put (entry 8 ''h'' 80), Get, Put (entry 8 ''h'' 80), Get] =
     Inr (\<lparr>data = [entry 7 ''g'' 70, entry 8 ''h'' 80, entry 5 ''e'' 50, entry 6 ''f'' 60],
            pRd = 3, pWr = 2, fRd = True\<rparr>,
          [PutOk, PutOk, PutOk, BufferFull, GetOk (entry 2 ''b'' 20), PutOk,
           GetOk (entry 5 ''e'' 50)]) \<and>
   puts_done [PutOk, PutOk, PutOk, BufferFull, GetOk (entry 2 ''b'' 20), PutOk,
              GetOk (entry 5 ''e'' 50)] = 1 * NFIFOCAP \<and>
   pWr ex_partial = 2 \<and>
   0 < NFIFOCAP \<and> length (data ex_raw) = NFIFOCAP \<and>
   length (map (\<lambda>i. entry i [] 0) [1, 2, 3, 4, 5, 6, 7, 8, 9, 10, 11, 12]) = 3 * NFIFOCAP \<and>
   run NFIFOCAP (fst (FifoInit 7 ex_raw))
       (concat (map (\<lambda>x. [Put x, Get])
          (map (\<lambda>i. entry i [] 0) [1, 2, 3, 4, 5, 6, 7, 8, 9, 10, 11, 12]))) =
     Inr (\<lparr>data = [entry 9 [] 0, entry 10 [] 0, entry 11 [] 0, entry 12 [] 0],
            pRd = 0, pWr = 0, fRd = True\<rparr>,
          concat (map (\<lambda>x. [PutOk, GetOk x])
            (map (\<lambda>i. entry i [] 0) [1, 2, 3, 4, 5, 6, 7, 8, 9, 10, 11, 12])))"
  using wrap_around_exact [of NFIFOCAP ex_partial
      "[Put (entry 5 ''e'' 50), Put (entry 6 ''f'' 60), Put (entry 7 ''g'' 70),
        Put (entry 8 ''h'' 80), Get, Put (entry 8 ''h'' 80), Get]" 1 ex_raw
      "map (\<lambda>i. entry i [] 0) [1, 2, 3, 4, 5, 6, 7, 8, 9, 10, 11, 12]" 7]
  by (simp add: NFIFOCAP_def ex_partial_def ex_raw_def fifo_ok_def FifoInit_def step_def
      FifoPut_def FifoGet_def puts_done_def)

text \<open>
  C7. The scenario at the program's own capacity \<open>NFIFOCAP = 4\<close>: on a freshly
  initialised structure, puts of items with ids 1, 2, 3, 4 all succeed; the put of a
  fifth item (id 5) fails with BufferFull; a get then delivers the item with id 1; the
  put of the item with id 5 now succeeds; four further gets deliver the items with ids
  2, 3, 4, 5 in that order; one more get fails with BufferEmpty. Names and time stamps
  of the items are arbitrary.
\<close>

theorem scenario_capacity_four:
  assumes "length (data f0) = NFIFOCAP"
  shows "\<exists>f'. run NFIFOCAP (fst (FifoInit clk f0))
          [Put (entry 1 n1 t1), Put (entry 2 n2 t2), Put (entry 3 n3 t3), Put (entry 4 n4 t4),
           Put (entry 5 n5 t5), Get, Put (entry 5 n5 t5), Get, Get, Get, Get, Get] =
        Inr (f', [PutOk, PutOk, PutOk, PutOk, BufferFull, GetOk (entry 1 n1 t1), PutOk,
                  GetOk (entry 2 n2 t2), GetOk (entry 3 n3 t3), GetOk (entry 4 n4 t4),
                  GetOk (entry 5 n5 t5), BufferEmpty])"
proof -
  from assms obtain a b c d where d: "data f0 = [a, b, c, d]"
    by (auto simp: NFIFOCAP_def numeral_eq_Suc length_Suc_conv)
  show ?thesis
    by (simp add: init_state d NFIFOCAP_def step_def FifoPut_def FifoGet_def)
qed

theorem scenario_capacity_four_witness:
  "length (data ex_raw) = NFIFOCAP \<and>
   run NFIFOCAP (fst (FifoInit 7 ex_raw))
       [Put (entry 1 ''a'' 10), Put (entry 2 ''b'' 20), Put (entry 3 ''c'' 30),
        Put (entry 4 ''d'' 40), Put (entry 5 ''e'' 50), Get, Put (entry 5 ''e'' 50),
        Get, Get, Get, Get, Get] =
     Inr (\<lparr>data = [entry 5 ''e'' 50, entry 2 ''b'' 20, entry 3 ''c'' 30, entry 4 ''d'' 40],
            pRd = 1, pWr = 1, fRd = True\<rparr>,
          [PutOk, PutOk, PutOk, PutOk, BufferFull, GetOk (entry 1 ''a'' 10), PutOk,
           GetOk (entry 2 ''b'' 20), GetOk (entry 3 ''c'' 30), GetOk (entry 4 ''d'' 40),
           GetOk (entry 5 ''e'' 50), BufferEmpty]) \<and>
   map ID [entry 1 ''a'' 10, entry 2 ''b'' 20, entry 3 ''c'' 30, entry 4 ''d'' 40,
           entry 5 ''e'' 50] = [1, 2, 3, 4, 5]"
  using scenario_capacity_four [of ex_raw 7 "''a''" 10 "''b''" 20 "''c''" 30 "''d''" 40 "''e''" 50]
  by (simp add: NFIFOCAP_def ex_raw_def entry_def FifoInit_def step_def FifoPut_def FifoGet_def)

end
